theory Spec2Isabelle
  imports Main
begin

section \<open>Python strings\<close>

text \<open>
  The scripts read each note with \<^verbatim>\<open>read_text(encoding='utf-8')\<close>, so the value they
  work on is a Python \<^verbatim>\<open>str\<close>: a sequence of Unicode code points (the notes hold Korean
  text). A code point is a natural number here, and a string a list of them. \<open>lit\<close>
  turns an ASCII literal of the source into such a list.
\<close>

type_synonym str = "nat list"

definition lit :: "string \<Rightarrow> str" where
  "lit s = map of_char s"

text \<open>\<^verbatim>\<open>s.startswith(p)\<close>\<close>

definition startswith :: "str \<Rightarrow> str \<Rightarrow> bool" where
  "startswith s p = (take (length p) s = p)"

text \<open>
  The leftmost occurrence of \<open>sep\<close> in a string: the text before it and the text after
  it (\<^verbatim>\<open>str.find\<close> followed by two slices). \<open>None\<close> when \<open>sep\<close> does not occur.
\<close>

fun cut_first :: "str \<Rightarrow> str \<Rightarrow> (str \<times> str) option" where
  "cut_first sep [] = (if sep = [] then Some ([], []) else None)"
| "cut_first sep (c # cs) =
     (if startswith (c # cs) sep then Some ([], drop (length sep) (c # cs))
      else map_option (\<lambda>(a, r). (c # a, r)) (cut_first sep cs))"

text \<open>\<^verbatim>\<open>sub in s\<close>\<close>

definition contains :: "str \<Rightarrow> str \<Rightarrow> bool" where
  "contains s sub = (cut_first sub s \<noteq> None)"

text \<open>
  \<^verbatim>\<open>s.split(sep, maxsplit)\<close> for a non-empty separator: cut at the leftmost
  occurrence, then go on in the text after it, at most \<open>maxsplit\<close> times.
\<close>

fun split_max :: "str \<Rightarrow> nat \<Rightarrow> str \<Rightarrow> str list" where
  "split_max sep 0 s = [s]"
| "split_max sep (Suc n) s =
     (case cut_first sep s of
        None \<Rightarrow> [s]
      | Some (a, r) \<Rightarrow> a # split_max sep n r)"

text \<open>
  \<^verbatim>\<open>s.count(sep)\<close> for a non-empty separator: the number of occurrences found from
  left to right, each search starting where the previous occurrence ended.
\<close>

function count_sub :: "str \<Rightarrow> str \<Rightarrow> nat" where
  "count_sub sep s =
     (if sep = [] then Suc (length s)
      else case cut_first sep s of
        None \<Rightarrow> 0
      | Some (a, r) \<Rightarrow> Suc (count_sub sep r))"
  by pat_completeness auto
termination
proof (relation "measure (\<lambda>(sep, s). length s)")
  show "wf (measure (\<lambda>(sep, s). length s))" by simp
next
  fix sep s :: str and x a r
  assume ne: "sep \<noteq> []" and cut: "cut_first sep s = Some x" and x: "(a, r) = x"
  have "cut_first sep t = Some (b, q) \<Longrightarrow> length q < length t" for t b q
  proof (induction t arbitrary: b)
    case Nil
    with ne show ?case by simp
  next
    case (Cons c cs)
    with ne show ?case
      by (cases sep) (auto split: if_splits)
  qed
  with cut x show "((sep, r), (sep, s)) \<in> measure (\<lambda>(sep, s). length s)"
    by auto
qed

declare count_sub.simps [simp del]

text \<open>
  \<^verbatim>\<open>re.search('^' + p, s, re.MULTILINE)\<close> for a literal \<open>p\<close>: with MULTILINE the
  anchor matches at the start of the string and right after every newline (code point
  10). The flag \<open>bol\<close> says whether the current position is such a place.
\<close>

fun search_bol :: "str \<Rightarrow> bool \<Rightarrow> str \<Rightarrow> bool" where
  "search_bol p bol [] = (bol \<and> p = [])"
| "search_bol p bol (c # cs) =
     ((bol \<and> startswith (c # cs) p) \<or> search_bol p (c = 10) cs)"

definition re_search_line :: "str \<Rightarrow> str \<Rightarrow> bool" where
  "re_search_line p s = search_bol p True s"

text \<open>
  \<^verbatim>\<open>s.rstrip()\<close> removes the trailing characters for which \<^verbatim>\<open>str.isspace\<close> holds:
  U+0009..U+000D, U+001C..U+0020, U+0085, U+00A0, U+1680, U+2000..U+200A, U+2028,
  U+2029, U+202F, U+205F and U+3000.
\<close>

definition isspace :: "nat \<Rightarrow> bool" where
  "isspace c =
     ((9 \<le> c \<and> c \<le> 13) \<or> (28 \<le> c \<and> c \<le> 32) \<or> c = 133 \<or> c = 160 \<or> c = 5760 \<or>
      (8192 \<le> c \<and> c \<le> 8202) \<or> c = 8232 \<or> c = 8233 \<or> c = 8239 \<or> c = 8287 \<or>
      c = 12288)"

definition rstrip :: "str \<Rightarrow> str" where
  "rstrip s = rev (dropWhile isspace (rev s))"

text \<open>
  \<^verbatim>\<open>str(b).lower()\<close>: \<^verbatim>\<open>str\<close> of a bool is \<^verbatim>\<open>'True'\<close> or \<^verbatim>\<open>'False'\<close>, and
  \<^verbatim>\<open>lower\<close> maps the letters A..Z to a..z (its action on the rest of Unicode is not
  exercised by these two strings and is left out).
\<close>

definition str_bool :: "bool \<Rightarrow> str" where
  "str_bool b = (if b then lit ''True'' else lit ''False'')"

definition lower :: "str \<Rightarrow> str" where
  "lower s = map (\<lambda>c. if 65 \<le> c \<and> c \<le> 90 then c + 32 else c) s"

section \<open>The substitution\<close>

text \<open>
  \<^verbatim>\<open>re.sub('(' + p + '.*\\n)', '\\1' + ins, s)\<close> for a literal \<open>p\<close> and a
  replacement text \<open>ins\<close> without backslashes. A match starts where \<open>p\<close> starts; the
  dot does not match a newline, so \<^verbatim>\<open>.*\\n\<close> runs to the first newline after \<open>p\<close>, and
  there is no match at this place when no newline follows. No \<^verbatim>\<open>count\<close> is passed:
  every match is replaced, the search going on where the previous match ended. The
  replacement is the matched text (group 1) followed by \<open>ins\<close>.
\<close>

function re_sub_after :: "str \<Rightarrow> str \<Rightarrow> str \<Rightarrow> str" where
  "re_sub_after p ins [] = []"
| "re_sub_after p ins (c # cs) =
     (if startswith (c # cs) p then
        (case cut_first [10] (drop (length p) (c # cs)) of
           None \<Rightarrow> c # re_sub_after p ins cs
         | Some (tail, rest) \<Rightarrow> p @ tail @ [10] @ ins @ re_sub_after p ins rest)
      else c # re_sub_after p ins cs)"
  by pat_completeness auto
termination
proof (relation "measure (\<lambda>(p, ins, s). length s)")
  show "wf (measure (\<lambda>(p, ins, s). length s))" by simp
next
  fix p ins cs :: str and c :: nat
  show "((p, ins, cs), (p, ins, c # cs)) \<in> measure (\<lambda>(p, ins, s). length s)" by simp
next
  fix p ins cs :: str and c :: nat and x tail rest
  assume cut: "cut_first [10] (drop (length p) (c # cs)) = Some x" and x: "(tail, rest) = x"
  have "cut_first [10] t = Some (b, q) \<Longrightarrow> length q < length t" for t b q
    by (induction t arbitrary: b) (auto simp: startswith_def split: if_splits)
  moreover from cut x have "cut_first [10] (drop (length p) (c # cs)) = Some (tail, rest)"
    by simp
  ultimately have "length rest < length (drop (length p) (c # cs))" by blast
  then show "((p, ins, rest), (p, ins, c # cs)) \<in> measure (\<lambda>(p, ins, s). length s)"
    by simp
next
  fix p ins cs :: str and c :: nat
  show "((p, ins, cs), (p, ins, c # cs)) \<in> measure (\<lambda>(p, ins, s). length s)" by simp
qed

section \<open>The edit of the text\<close>

text \<open>
  What a run prints about a file. The scripts print two different messages for a note
  without a usable header (\<^verbatim>\<open>No YAML frontmatter\<close> and \<^verbatim>\<open>Invalid YAML frontmatter\<close>);
  the specification calls both \<^verbatim>\<open>MalformedHeader\<close>.
\<close>

datatype report =
    NoFrontmatter | FieldExists | InvalidFrontmatter | Added | ProcessingError | FileNotFound

definition malformed_header :: "report \<Rightarrow> bool" where
  "malformed_header r = (r = NoFrontmatter \<or> r = InvalidFrontmatter)"

text \<open>The line \<^verbatim>\<open>f'archive: {str(archive_value).lower()}\\n'\<close>.\<close>

definition field_line :: "str \<Rightarrow> bool \<Rightarrow> str" where
  "field_line key v = key @ lit '': '' @ lower (str_bool v) @ [10]"

text \<open>The two branches that build the new header (lines 43 to 51 of the archive script).\<close>

definition new_frontmatter :: "str \<Rightarrow> str \<Rightarrow> bool \<Rightarrow> str \<Rightarrow> str" where
  "new_frontmatter key anchor v frontmatter =
     (if contains frontmatter (anchor @ lit '':'')
      then re_sub_after (anchor @ lit '':'') (field_line key v) frontmatter
      else rstrip frontmatter @ [10] @ field_line key v)"

text \<open>
  The body of \<^verbatim>\<open>add_archive_field\<close> and \<^verbatim>\<open>add_like_field\<close> between the read and the
  write: the two functions differ in the two key names only. The result is the message
  of an early return, or the text handed to \<^verbatim>\<open>write_text\<close>.
\<close>

definition add_field_text :: "str \<Rightarrow> str \<Rightarrow> bool \<Rightarrow> str \<Rightarrow> report + str" where
  "add_field_text key anchor v content =
     (if \<not> startswith content (lit ''---'') then Inl NoFrontmatter
      else if re_search_line (key @ lit '':'') content then Inl FieldExists
      else
        let parts = split_max (lit ''---'') 2 content in
        if length parts < 3 then Inl InvalidFrontmatter
        else
          let frontmatter = parts ! 1;
              rest = lit ''---'' @ parts ! 2
          in Inr (lit ''---'' @ new_frontmatter key anchor v frontmatter @ rest))"

section \<open>Files and runs\<close>

text \<open>
  \<^verbatim>\<open>read_text\<close> opens the file in text mode, with universal newlines: in the decoded
  text every pair CR LF and every other CR (code point 13) becomes one LF (code point
  10). \<open>after_cr\<close> says that the character before was a CR. \<^verbatim>\<open>write_text\<close> writes LF
  as it is on the platform of the scripts (their base directory is a macOS path), so a
  file with CR LF line ends comes back from a rewrite with LF line ends throughout.
\<close>

fun translate_newlines :: "bool \<Rightarrow> str \<Rightarrow> str" where
  "translate_newlines after_cr [] = []"
| "translate_newlines after_cr (c # cs) =
     (if c = 13 then 10 # translate_newlines True cs
      else if c = 10 \<and> after_cr then translate_newlines False cs
      else c # translate_newlines False cs)"

definition universal_newlines :: "str \<Rightarrow> str" where
  "universal_newlines raw = translate_newlines False raw"

text \<open>
  A file on disk, as far as the scripts can tell: \<open>data\<close> is the text that
  \<^verbatim>\<open>read_text\<close> returns (decoded, its newlines translated), or \<open>None\<close> when reading raises (no permission, bytes that are
  not UTF-8). \<open>fault\<close> says what \<^verbatim>\<open>write_text\<close> does to this file. It opens the file
  for writing, which truncates it, and then writes the text; no temporary file or rename
  is involved. So a write succeeds, or raises before the file is touched (the open is
  refused), or raises after the truncation with only the first \<open>n\<close> characters on disk.
\<close>

datatype wfault = WriteOk | OpenRefused | BrokenAfter nat

record disk_file =
  data :: "str option"
  fault :: wfault

text \<open>
  The state of a run: the files by path, the paths \<^verbatim>\<open>write_text\<close> was called on (in
  order), and the messages printed (the file they are about, and which message).
\<close>

record world =
  files :: "str \<Rightarrow> disk_file option"
  written :: "str list"
  console :: "(str \<times> report) list"

definition say :: "world \<Rightarrow> str \<Rightarrow> report \<Rightarrow> world" where
  "say w name r = w\<lparr>console := console w @ [(name, r)]\<rparr>"


text \<open>\<^verbatim>\<open>file_path.read_text(encoding='utf-8')\<close>; \<open>None\<close> stands for an exception.\<close>

definition read_text :: "world \<Rightarrow> str \<Rightarrow> str option" where
  "read_text w p = (case files w p of None \<Rightarrow> None | Some f \<Rightarrow> data f)"

text \<open>
  \<^verbatim>\<open>file_path.write_text(new_content, encoding='utf-8')\<close>: the new state, and whether
  the call returned (\<open>False\<close> stands for an exception). A path without a file gets
  one.
\<close>

definition write_text :: "world \<Rightarrow> str \<Rightarrow> str \<Rightarrow> world \<times> bool" where
  "write_text w p new =
     (let w' = w\<lparr>written := written w @ [p]\<rparr> in
      case files w p of
        None \<Rightarrow> (w'\<lparr>files := (files w)(p \<mapsto> \<lparr>data = Some new, fault = WriteOk\<rparr>)\<rparr>, True)
      | Some f \<Rightarrow>
          (case fault f of
             WriteOk \<Rightarrow> (w'\<lparr>files := (files w)(p \<mapsto> f\<lparr>data := Some new\<rparr>)\<rparr>, True)
           | OpenRefused \<Rightarrow> (w', False)
           | BrokenAfter n \<Rightarrow>
               (w'\<lparr>files := (files w)(p \<mapsto> f\<lparr>data := Some (take n new)\<rparr>)\<rparr>, False)))"

text \<open>
  \<^verbatim>\<open>add_archive_field\<close> and \<^verbatim>\<open>add_like_field\<close>: the whole body is in a \<^verbatim>\<open>try\<close>
  whose handler prints \<^verbatim>\<open>Error processing\<close>, so an exception of the read or of the write
  ends the call with that message. The messages name the file by the last part of its
  path; the model keeps the whole path.
\<close>

definition add_field :: "str \<Rightarrow> str \<Rightarrow> world \<Rightarrow> str \<Rightarrow> bool \<Rightarrow> world" where
  "add_field key anchor w file_path v =
     (case read_text w file_path of
        None \<Rightarrow> say w file_path ProcessingError
      | Some content \<Rightarrow>
          (case add_field_text key anchor v content of
             Inl r \<Rightarrow> say w file_path r
           | Inr new_content \<Rightarrow>
               (case write_text w file_path new_content of
                  (w', returned) \<Rightarrow>
                    say w' file_path (if returned then Added else ProcessingError))))"

definition add_archive_field :: "world \<Rightarrow> str \<Rightarrow> bool \<Rightarrow> world" where
  "add_archive_field = add_field (lit ''archive'') (lit ''like'')"

definition add_like_field :: "world \<Rightarrow> str \<Rightarrow> bool \<Rightarrow> world" where
  "add_like_field = add_field (lit ''like'') (lit ''archive'')"




text \<open>A disk with one note, for the examples.\<close>

definition one_note :: "str \<Rightarrow> str \<Rightarrow> wfault \<Rightarrow> world" where
  "one_note p c flt =
     \<lparr>files = (\<lambda>q. if q = p then Some \<lparr>data = Some c, fault = flt\<rparr> else None),
      written = [], console = []\<rparr>"

section \<open>Notions of the specification\<close>

text \<open>
  The first line of a text, the characters before its first newline: the specification
  speaks of a document whose first line is the sentinel \<^verbatim>\<open>---\<close>.
\<close>

definition first_line :: "str \<Rightarrow> str" where
  "first_line s = takeWhile (\<lambda>c. c \<noteq> 10) s"

text \<open>
  "The only difference is the one inserted line": \<open>new\<close> is \<open>old\<close> with the text
  \<open>line\<close> put in at one place, everything before and after that place kept.
\<close>

fun one_line_inserted :: "str \<Rightarrow> str \<Rightarrow> str \<Rightarrow> bool" where
  "one_line_inserted line [] new = (new = line)"
| "one_line_inserted line (c # cs) new =
     (new = line @ c # cs \<or>
      (case new of [] \<Rightarrow> False | d # ds \<Rightarrow> d = c \<and> one_line_inserted line cs ds))"

section \<open>Facts about the string functions\<close>


lemma startswith_append [simp]: "startswith (p @ s) p"
  by (simp add: startswith_def)

lemma startswith_iff: "startswith s p \<longleftrightarrow> (\<exists>r. s = p @ r)"
proof
  assume "startswith s p"
  then have "s = p @ drop (length p) s"
    by (metis append_take_drop_id startswith_def)
  then show "\<exists>r. s = p @ r" ..
next
  assume "\<exists>r. s = p @ r"
  then show "startswith s p" by auto
qed

lemma cut_first_SomeD: "cut_first sep s = Some (a, r) \<Longrightarrow> s = a @ sep @ r"
proof (induction s arbitrary: a)
  case Nil
  then show ?case by (simp split: if_splits)
next
  case (Cons c cs)
  show ?case
  proof (cases "startswith (c # cs) sep")
    case True
    with Cons.prems have "a = []" "r = drop (length sep) (c # cs)" by simp_all
    moreover from True have "c # cs = sep @ drop (length sep) (c # cs)"
      by (metis append_take_drop_id startswith_def)
    ultimately show ?thesis by simp
  next
    case False
    with Cons.prems obtain a' where "cut_first sep cs = Some (a', r)" "a = c # a'"
      by auto
    with Cons.IH show ?thesis by simp
  qed
qed

lemma cut_first_NoneD: "cut_first sep s = None \<Longrightarrow> s \<noteq> a @ sep @ r"
proof (induction s arbitrary: a)
  case Nil
  then show ?case by (simp split: if_splits)
next
  case (Cons c cs)
  from Cons.prems have ns: "\<not> startswith (c # cs) sep" and none: "cut_first sep cs = None"
    by (auto split: if_splits)
  show ?case
  proof (cases a)
    case Nil
    with ns show ?thesis by (auto simp: startswith_iff)
  next
    case (Cons x a')
    with Cons.IH [OF none, of a'] show ?thesis by auto
  qed
qed

lemma cut_first_least:
  "cut_first sep s = Some (a, r) \<Longrightarrow> s = a' @ sep @ r' \<Longrightarrow> length a \<le> length a'"
proof (induction s arbitrary: a a')
  case Nil
  then show ?case by (simp split: if_splits)
next
  case (Cons c cs)
  show ?case
  proof (cases "startswith (c # cs) sep")
    case True
    with Cons.prems(1) have "a = []" by simp
    then show ?thesis by simp
  next
    case False
    with Cons.prems(1) obtain b where b: "cut_first sep cs = Some (b, r)" "a = c # b"
      by auto
    from False Cons.prems(2) obtain b' where b': "a' = c # b'" "cs = b' @ sep @ r'"
      by (cases a') (auto simp: startswith_iff)
    from Cons.IH [OF b(1) b'(2)] b(2) b'(1) show ?thesis by simp
  qed
qed

lemma contains_iff: "contains s sub \<longleftrightarrow> (\<exists>a r. s = a @ sub @ r)"
proof
  assume "contains s sub"
  then obtain a r where "cut_first sub s = Some (a, r)"
    by (auto simp: contains_def)
  then show "\<exists>a r. s = a @ sub @ r" by (blast dest: cut_first_SomeD)
next
  assume "\<exists>a r. s = a @ sub @ r"
  then show "contains s sub"
    unfolding contains_def by (metis cut_first_NoneD)
qed

lemma cut_first_prefix: "startswith s sep \<Longrightarrow> cut_first sep s = Some ([], drop (length sep) s)"
  by (cases s) (auto simp: startswith_def)

lemma split_max_2:
  assumes "startswith content sep"
  shows "split_max sep 2 content =
    (case cut_first sep (drop (length sep) content) of
       None \<Rightarrow> [[], drop (length sep) content]
     | Some (h, r) \<Rightarrow> [[], h, r])"
  using assms by (simp add: numeral_2_eq_2 cut_first_prefix split: option.splits)

lemma count_sub_lt_2:
  assumes "startswith content sep" "sep \<noteq> []"
  shows "count_sub sep content < 2 \<longleftrightarrow> cut_first sep (drop (length sep) content) = None"
proof -
  from assms have "count_sub sep content = Suc (count_sub sep (drop (length sep) content))"
    by (subst count_sub.simps) (simp add: cut_first_prefix)
  also have "\<dots> < 2 \<longleftrightarrow> cut_first sep (drop (length sep) content) = None"
    using assms(2) by (subst count_sub.simps) (auto split: option.splits)
  finally show ?thesis .
qed

lemma lit_sentinel: "lit ''---'' = [45, 45, 45]"
  by (simp add: lit_def)


lemma length_sentinel: "length (lit ''---'') = 3"
  by (simp add: lit_def)

lemma add_field_text_cases:
  "add_field_text key anchor v content =
     (if \<not> startswith content (lit ''---'') then Inl NoFrontmatter
      else if re_search_line (key @ lit '':'') content then Inl FieldExists
      else case cut_first (lit ''---'') (drop 3 content) of
        None \<Rightarrow> Inl InvalidFrontmatter
      | Some (h, r) \<Rightarrow> Inr (lit ''---'' @ new_frontmatter key anchor v h @ lit ''---'' @ r))"
  by (simp add: add_field_text_def split_max_2 length_sentinel split: option.splits)

lemma add_field_text_InrD:
  assumes "add_field_text key anchor v content = Inr new"
  obtains h r where "startswith content (lit ''---'')"
    and "\<not> re_search_line (key @ lit '':'') content"
    and "cut_first (lit ''---'') (drop 3 content) = Some (h, r)"
    and "content = lit ''---'' @ h @ lit ''---'' @ r"
    and "new = lit ''---'' @ new_frontmatter key anchor v h @ lit ''---'' @ r"
proof -
  from assms have sw: "startswith content (lit ''---'')"
    and nf: "\<not> re_search_line (key @ lit '':'') content"
    by (auto simp: add_field_text_cases split: if_splits)
  with assms obtain h r where cut: "cut_first (lit ''---'') (drop 3 content) = Some (h, r)"
    and new: "new = lit ''---'' @ new_frontmatter key anchor v h @ lit ''---'' @ r"
    by (auto simp: add_field_text_cases split: option.splits)
  from sw have "content = lit ''---'' @ drop 3 content"
    by (metis append_take_drop_id length_sentinel startswith_def)
  with cut_first_SomeD [OF cut] have "content = lit ''---'' @ h @ lit ''---'' @ r" by simp
  from that [OF sw nf cut this new] show thesis .
qed

lemma search_bol_mono: "search_bol p False s \<Longrightarrow> search_bol p True s"
  by (cases s) auto

lemma search_bol_at_line:
  "startswith y p \<Longrightarrow> search_bol p bol (x @ [10] @ y)"
proof (induction x arbitrary: bol)
  case Nil
  then show ?case by (cases y) (auto simp: startswith_def)
next
  case (Cons c cs)
  then show ?case by simp
qed

lemma re_sub_after_changed:
  "re_sub_after p ins s \<noteq> s \<Longrightarrow> \<exists>a b. re_sub_after p ins s = a @ [10] @ ins @ b"
proof (induction p ins s rule: re_sub_after.induct)
  case (1 p ins)
  then show ?case by simp
next
  case (2 p ins c cs)
  show ?case
  proof (cases "startswith (c # cs) p")
    case False
    with 2 obtain a b where "re_sub_after p ins cs = a @ [10] @ ins @ b" by auto
    with False have "re_sub_after p ins (c # cs) = (c # a) @ [10] @ ins @ b" by simp
    then show ?thesis by blast
  next
    case True
    show ?thesis
    proof (cases "cut_first [10] (drop (length p) (c # cs))")
      case None
      with True 2 obtain a b where "re_sub_after p ins cs = a @ [10] @ ins @ b" by auto
      with True None have "re_sub_after p ins (c # cs) = (c # a) @ [10] @ ins @ b" by simp
      then show ?thesis by blast
    next
      case (Some x)
      then obtain tail rest where "x = (tail, rest)" by (cases x)
      with True Some have "re_sub_after p ins (c # cs) =
          (p @ tail) @ [10] @ ins @ re_sub_after p ins rest"
        by simp
      then show ?thesis by blast
    qed
  qed
qed

lemma field_line_starts: "startswith (field_line key v @ s) (key @ lit '':'')"
  by (simp add: field_line_def lit_def startswith_def)

lemma new_frontmatter_changed:
  assumes "new_frontmatter key anchor v h \<noteq> h"
  shows "\<exists>a b. new_frontmatter key anchor v h = a @ [10] @ field_line key v @ b"
proof (cases "contains h (anchor @ lit '':'')")
  case True
  with assms have "re_sub_after (anchor @ lit '':'') (field_line key v) h \<noteq> h"
    by (simp add: new_frontmatter_def)
  from re_sub_after_changed [OF this] True show ?thesis
    by (simp add: new_frontmatter_def)
next
  case False
  then have "new_frontmatter key anchor v h = rstrip h @ [10] @ field_line key v @ []"
    by (simp add: new_frontmatter_def)
  then show ?thesis by blast
qed

lemma add_field_text_again:
  assumes "add_field_text key anchor v c = Inr new" and "new \<noteq> c"
  shows "add_field_text key anchor v new = Inl FieldExists"
proof -
  from assms(1) obtain h r where c: "c = lit ''---'' @ h @ lit ''---'' @ r"
    and new: "new = lit ''---'' @ new_frontmatter key anchor v h @ lit ''---'' @ r"
    by (rule add_field_text_InrD)
  with assms(2) have "new_frontmatter key anchor v h \<noteq> h" by auto
  then obtain a b where "new_frontmatter key anchor v h = a @ [10] @ field_line key v @ b"
    using new_frontmatter_changed by blast
  with new have "new = (lit ''---'' @ a) @ [10] @ (field_line key v @ b @ lit ''---'' @ r)"
    by simp
  then have "re_search_line (key @ lit '':'') new"
    unfolding re_search_line_def by (simp only: search_bol_at_line field_line_starts)
  moreover from new have "startswith new (lit ''---'')" by simp
  ultimately show ?thesis by (simp add: add_field_text_cases)
qed


lemma script_cases:
  assumes "add \<in> {add_archive_field, add_like_field}"
  obtains key anchor where "add = add_field key anchor"
  using assms by (auto simp: add_archive_field_def add_like_field_def)

lemma add_field_unreadable:
  "files w p = Some f \<Longrightarrow> data f = None \<Longrightarrow> add_field key anchor w p v = say w p ProcessingError"
  by (simp add: add_field_def read_text_def)

lemma add_field_skip:
  "files w p = Some f \<Longrightarrow> data f = Some c \<Longrightarrow> add_field_text key anchor v c = Inl r \<Longrightarrow>
   add_field key anchor w p v = say w p r"
  by (simp add: add_field_def read_text_def)

lemma add_field_write:
  "files w p = Some f \<Longrightarrow> data f = Some c \<Longrightarrow> add_field_text key anchor v c = Inr new \<Longrightarrow>
   add_field key anchor w p v =
     (case fault f of
        WriteOk \<Rightarrow>
          say (w\<lparr>written := written w @ [p], files := (files w)(p \<mapsto> f\<lparr>data := Some new\<rparr>)\<rparr>) p Added
      | OpenRefused \<Rightarrow> say (w\<lparr>written := written w @ [p]\<rparr>) p ProcessingError
      | BrokenAfter n \<Rightarrow>
          say (w\<lparr>written := written w @ [p],
                 files := (files w)(p \<mapsto> f\<lparr>data := Some (take n new)\<rparr>)\<rparr>) p ProcessingError)"
  by (simp add: add_field_def read_text_def write_text_def Let_def split: wfault.splits)

lemma say_simps [simp]:
  "files (say w n r) = files w" "written (say w n r) = written w"
  "console (say w n r) = console w @ [(n, r)]"
  by (simp_all add: say_def)

lemma add_field_twice:
  assumes f: "files w p = Some f" and c: "data f = Some c" and ok: "fault f = WriteOk"
  shows "files (add_field key anchor (add_field key anchor w p v) p v) =
         files (add_field key anchor w p v)"
    and "console (add_field key anchor w p v) = console w @ [(p, Added)] \<Longrightarrow>
         files (add_field key anchor w p v) \<noteq> files w \<Longrightarrow>
         add_field key anchor (add_field key anchor w p v) p v =
           say (add_field key anchor w p v) p FieldExists"
proof -
  let ?w1 = "add_field key anchor w p v"
  show "files (add_field key anchor ?w1 p v) = files ?w1"
  proof (cases "add_field_text key anchor v c")
    case (Inl r)
    with f c have w1: "?w1 = say w p r" by (simp add: add_field_skip)
    with f have "files ?w1 p = Some f" by simp
    from add_field_skip [OF this c Inl] show ?thesis by simp
  next
    case (Inr new)
    let ?f1 = "f\<lparr>data := Some new\<rparr>"
    from add_field_write [OF f c Inr] ok
    have w1: "?w1 = say (w\<lparr>written := written w @ [p], files := (files w)(p \<mapsto> ?f1)\<rparr>) p Added"
      by simp
    then have f1: "files ?w1 p = Some ?f1" by simp
    have c1: "data ?f1 = Some new" and ok1: "fault ?f1 = WriteOk" using ok by simp_all
    show ?thesis
    proof (cases "new = c")
      case True
      with Inr have "add_field_text key anchor v new = Inr new" by simp
      from add_field_write [OF f1 c1 this] ok1
      have "files (add_field key anchor ?w1 p v) = (files ?w1)(p \<mapsto> ?f1)" by simp
      with f1 show ?thesis by (simp add: fun_upd_idem)
    next
      case False
      with Inr have "add_field_text key anchor v new = Inl FieldExists"
        by (rule add_field_text_again)
      from add_field_skip [OF f1 c1 this] show ?thesis by simp
    qed
  qed
next
  let ?w1 = "add_field key anchor w p v"
  assume added: "console ?w1 = console w @ [(p, Added)]" and changed: "files ?w1 \<noteq> files w"
  show "add_field key anchor ?w1 p v = say ?w1 p FieldExists"
  proof (cases "add_field_text key anchor v c")
    case (Inl r)
    with f c have "?w1 = say w p r" by (simp add: add_field_skip)
    with changed show ?thesis by simp
  next
    case (Inr new)
    let ?f1 = "f\<lparr>data := Some new\<rparr>"
    from add_field_write [OF f c Inr] ok
    have w1: "?w1 = say (w\<lparr>written := written w @ [p], files := (files w)(p \<mapsto> ?f1)\<rparr>) p Added"
      by simp
    then have f1: "files ?w1 p = Some ?f1" by simp
    have c1: "data ?f1 = Some new" by simp
    have "new \<noteq> c"
    proof
      assume "new = c"
      with c have "?f1 = f" by simp
      with w1 f have "files ?w1 = files w" by (simp add: fun_upd_idem)
      with changed show False by simp
    qed
    with Inr have "add_field_text key anchor v new = Inl FieldExists"
      by (rule add_field_text_again)
    from add_field_skip [OF f1 c1 this] show ?thesis .
  qed
qed

text \<open>
  Claim C1. Running a script twice on a note leaves the same text on disk as running it
  once. After a first run that printed \<^verbatim>\<open>Added\<close> and changed the note, the second run
  finds the field, prints the already-exists message, calls \<^verbatim>\<open>write_text\<close> not at all
  and leaves every file as it was.
\<close>

theorem insertion_idempotent:
  assumes "add \<in> {add_archive_field, add_like_field}"
    and "files w p = Some f" and "data f = Some c" and "fault f = WriteOk"
  shows "files (add (add w p v) p v) = files (add w p v) \<and>
    (console (add w p v) = console w @ [(p, Added)] \<and> files (add w p v) \<noteq> files w \<longrightarrow>
       console (add (add w p v) p v) = console (add w p v) @ [(p, FieldExists)] \<and>
       written (add (add w p v) p v) = written (add w p v) \<and>
       files (add (add w p v) p v) = files (add w p v))"
proof -
  from assms(1) obtain key anchor where add: "add = add_field key anchor"
    by (rule script_cases)
  show ?thesis
    unfolding add using add_field_twice [OF assms(2-4), of key anchor v] by simp
qed


theorem insertion_idempotent_witness:
  "add_archive_field \<in> {add_archive_field, add_like_field} \<and>
   files (one_note (lit ''n.md'') (lit ''---\<newline>title: x\<newline>like: true\<newline>---\<newline>body'') WriteOk) (lit ''n.md'') =
     Some \<lparr>data = Some (lit ''---\<newline>title: x\<newline>like: true\<newline>---\<newline>body''), fault = WriteOk\<rparr> \<and>
   console (add_archive_field
      (one_note (lit ''n.md'') (lit ''---\<newline>title: x\<newline>like: true\<newline>---\<newline>body'') WriteOk) (lit ''n.md'') True) =
     [(lit ''n.md'', Added)] \<and>
   files (add_archive_field
      (one_note (lit ''n.md'') (lit ''---\<newline>title: x\<newline>like: true\<newline>---\<newline>body'') WriteOk) (lit ''n.md'') True) \<noteq>
     files (one_note (lit ''n.md'') (lit ''---\<newline>title: x\<newline>like: true\<newline>---\<newline>body'') WriteOk) \<and>
   console (add_archive_field (add_archive_field
      (one_note (lit ''n.md'') (lit ''---\<newline>title: x\<newline>like: true\<newline>---\<newline>body'') WriteOk) (lit ''n.md'') True)
      (lit ''n.md'') True) = [(lit ''n.md'', Added), (lit ''n.md'', FieldExists)] \<and>
   written (add_archive_field (add_archive_field
      (one_note (lit ''n.md'') (lit ''---\<newline>title: x\<newline>like: true\<newline>---\<newline>body'') WriteOk) (lit ''n.md'') True)
      (lit ''n.md'') True) = [lit ''n.md'']"
proof -
  let ?p = "lit ''n.md''"
  let ?c = "lit ''---\<newline>title: x\<newline>like: true\<newline>---\<newline>body''"
  let ?n = "lit ''---\<newline>title: x\<newline>like: true\<newline>archive: true\<newline>---\<newline>body''"
  let ?f = "\<lparr>data = Some ?c, fault = WriteOk\<rparr>"
  let ?w = "one_note ?p ?c WriteOk"
  have t: "add_field_text (lit ''archive'') (lit ''like'') True ?c = Inr ?n" by code_simp
  have f: "files ?w ?p = Some ?f" by (simp add: one_note_def)
  have c: "data ?f = Some ?c" and ok: "fault ?f = WriteOk" by simp_all
  have w1: "add_archive_field ?w ?p True =
      say (?w\<lparr>written := written ?w @ [?p], files := (files ?w)(?p \<mapsto> ?f\<lparr>data := Some ?n\<rparr>)\<rparr>) ?p Added"
    unfolding add_archive_field_def using add_field_write [OF f c t] by simp
  have added: "console (add_archive_field ?w ?p True) = console ?w @ [(?p, Added)]"
    by (simp add: w1)
  have ne: "?n \<noteq> ?c" by (simp add: lit_def)
  have "files (add_archive_field ?w ?p True) ?p \<noteq> files ?w ?p"
    unfolding w1 f using ne by simp
  then have changed: "files (add_archive_field ?w ?p True) \<noteq> files ?w" by auto
  have wr: "written (add_archive_field ?w ?p True) = [?p]" "console ?w = []"
    by (simp_all add: w1) (simp_all add: one_note_def)
  have mem: "add_archive_field \<in> {add_archive_field, add_like_field}" by simp
  from insertion_idempotent [OF mem f c ok, of True] added changed wr f
  show ?thesis by simp
qed

lemma script_key_cases:
  assumes "(add, key) \<in> {(add_archive_field, lit ''archive''), (add_like_field, lit ''like'')}"
  obtains anchor where "add = add_field key anchor"
  using assms by (auto simp: add_archive_field_def add_like_field_def)

lemma add_field_console:
  assumes "files w p = Some f"
  shows "\<exists>r. console (add_field key anchor w p v) = console w @ [(p, r)]"
proof (cases "data f")
  case None
  with assms show ?thesis by (simp add: add_field_unreadable)
next
  case (Some c)
  show ?thesis
  proof (cases "add_field_text key anchor v c")
    case (Inl r)
    with assms Some show ?thesis by (simp add: add_field_skip)
  next
    case (Inr new)
    from add_field_write [OF assms Some Inr] show ?thesis
      by (cases "fault f") simp_all
  qed
qed

lemma add_field_malformed_iff:
  assumes f: "files w p = Some f" and c: "data f = Some content"
    and nf: "\<not> re_search_line (key @ lit '':'') content"
  shows "\<exists>r. console (add_field key anchor w p v) = console w @ [(p, r)] \<and>
      (malformed_header r \<longleftrightarrow>
         \<not> startswith content (lit ''---'') \<or> count_sub (lit ''---'') content < 2) \<and>
      (malformed_header r \<longrightarrow>
         written (add_field key anchor w p v) = written w \<and>
         files (add_field key anchor w p v) = files w)"
proof (cases "startswith content (lit ''---'')")
  case False
  then have "add_field_text key anchor v content = Inl NoFrontmatter"
    by (simp add: add_field_text_cases)
  from add_field_skip [OF f c this] False show ?thesis
    by (simp add: malformed_header_def)
next
  case True
  have ne: "lit ''---'' \<noteq> []" by (simp add: lit_def)
  from count_sub_lt_2 [OF True ne]
  have cnt: "count_sub (lit ''---'') content < 2 \<longleftrightarrow>
      cut_first (lit ''---'') (drop 3 content) = None"
    by (simp add: length_sentinel)
  show ?thesis
  proof (cases "cut_first (lit ''---'') (drop 3 content)")
    case None
    with True nf have "add_field_text key anchor v content = Inl InvalidFrontmatter"
      by (simp add: add_field_text_cases)
    from add_field_skip [OF f c this] None cnt show ?thesis
      by (simp add: malformed_header_def)
  next
    case (Some x)
    with True nf obtain new where "add_field_text key anchor v content = Inr new"
      by (cases x) (simp add: add_field_text_cases)
    from add_field_write [OF f c this] Some cnt True show ?thesis
      by (cases "fault f") (simp_all add: malformed_header_def)
  qed
qed

text \<open>
  Claim C10. For a note that exists, is read and has no line starting with the key, the
  message is one of the two malformed-header messages exactly when the text does not
  begin with the three characters \<^verbatim>\<open>---\<close> or \<^verbatim>\<open>---\<close> occurs fewer than twice in
  it (occurrences counted as \<^verbatim>\<open>str.count\<close> counts them); in that case nothing is
  written and no file changes.
\<close>

theorem malformed_header_iff:
  assumes "(add, key) \<in> {(add_archive_field, lit ''archive''), (add_like_field, lit ''like'')}"
    and "files w p = Some f" and "data f = Some content"
    and "\<not> re_search_line (key @ lit '':'') content"
  shows "\<exists>r. console (add w p v) = console w @ [(p, r)] \<and>
      (malformed_header r \<longleftrightarrow>
         \<not> startswith content (lit ''---'') \<or> count_sub (lit ''---'') content < 2) \<and>
      (malformed_header r \<longrightarrow> written (add w p v) = written w \<and> files (add w p v) = files w)"
proof -
  from assms(1) obtain anchor where "add = add_field key anchor"
    by (rule script_key_cases)
  with add_field_malformed_iff [OF assms(2-4)] show ?thesis by simp
qed


theorem malformed_header_iff_witness:
  "(add_like_field, lit ''like'') \<in>
     {(add_archive_field, lit ''archive''), (add_like_field, lit ''like'')} \<and>
   \<not> re_search_line (lit ''like'' @ lit '':'') (lit ''---title\<newline>---\<newline>body'') \<and>
   startswith (lit ''---title\<newline>---\<newline>body'') (lit ''---'') \<and>
   \<not> count_sub (lit ''---'') (lit ''---title\<newline>---\<newline>body'') < 2 \<and>
   (\<exists>r. console (add_like_field
          (one_note (lit ''n.md'') (lit ''---title\<newline>---\<newline>body'') WriteOk) (lit ''n.md'') False) =
        [(lit ''n.md'', r)] \<and> \<not> malformed_header r) \<and>
   \<not> re_search_line (lit ''like'' @ lit '':'') (lit ''----'') \<and>
   count_sub (lit ''---'') (lit ''----'') < 2 \<and>
   (\<exists>r. console (add_like_field (one_note (lit ''n.md'') (lit ''----'') WriteOk) (lit ''n.md'') False) =
        [(lit ''n.md'', r)] \<and> malformed_header r \<and>
      written (add_like_field (one_note (lit ''n.md'') (lit ''----'') WriteOk) (lit ''n.md'') False) = [])"
proof -
  let ?p = "lit ''n.md''"
  let ?c1 = "lit ''---title\<newline>---\<newline>body''"
  let ?c2 = "lit ''----''"
  have mem: "(add_like_field, lit ''like'') \<in>
      {(add_archive_field, lit ''archive''), (add_like_field, lit ''like'')}"
    by simp
  have f: "files (one_note ?p c WriteOk) ?p = Some \<lparr>data = Some c, fault = WriteOk\<rparr>" for c
    by (simp add: one_note_def)
  have d: "data \<lparr>data = Some c, fault = WriteOk\<rparr> = Some c" for c :: str
    by simp
  have e: "console (one_note ?p c WriteOk) = []" "written (one_note ?p c WriteOk) = []" for c
    by (simp_all add: one_note_def)
  have h1: "\<not> re_search_line (lit ''like'' @ lit '':'') ?c1" by code_simp
  have s1: "startswith ?c1 (lit ''---'')" by code_simp
  have n1: "\<not> count_sub (lit ''---'') ?c1 < 2" by code_simp
  have h2: "\<not> re_search_line (lit ''like'' @ lit '':'') ?c2" by code_simp
  have n2: "count_sub (lit ''---'') ?c2 < 2" by code_simp
  from malformed_header_iff [OF mem f d h1, of False] s1 n1
  have a: "\<exists>r. console (add_like_field (one_note ?p ?c1 WriteOk) ?p False) = [(?p, r)] \<and>
      \<not> malformed_header r"
    by (auto simp: e)
  from malformed_header_iff [OF mem f d h2, of False] n2
  have b: "\<exists>r. console (add_like_field (one_note ?p ?c2 WriteOk) ?p False) = [(?p, r)] \<and>
      malformed_header r \<and>
      written (add_like_field (one_note ?p ?c2 WriteOk) ?p False) = []"
    by (auto simp: e)
  from mem h1 s1 n1 a h2 n2 b show ?thesis by blast
qed

text \<open>
  Claim C6, amended. A note whose text does not begin with the three characters
  \<^verbatim>\<open>---\<close> (its first line is then not the sentinel line either) gets the message
  \<^verbatim>\<open>No YAML frontmatter\<close>; nothing is written and no file changes.
\<close>

theorem no_frontmatter_guard:
  assumes "add \<in> {add_archive_field, add_like_field}"
    and "files w p = Some f" and "data f = Some content"
    and "\<not> startswith content (lit ''---'')"
  shows "first_line content \<noteq> lit ''---'' \<and>
    console (add w p v) = console w @ [(p, NoFrontmatter)] \<and>
    malformed_header NoFrontmatter \<and>
    written (add w p v) = written w \<and> files (add w p v) = files w"
proof -
  from assms(1) obtain key anchor where add: "add = add_field key anchor"
    by (rule script_cases)
  from assms(4) have "add_field_text key anchor v content = Inl NoFrontmatter"
    by (simp add: add_field_text_cases)
  from add_field_skip [OF assms(2,3) this] add
  have run: "add w p v = say w p NoFrontmatter" by simp
  have "first_line content \<noteq> lit ''---''"
  proof
    assume "first_line content = lit ''---''"
    then have "content = lit ''---'' @ dropWhile (\<lambda>c. c \<noteq> 10) content"
      unfolding first_line_def by (metis takeWhile_dropWhile_id)
    then have "startswith content (lit ''---'')"
      by (metis startswith_append)
    with assms(4) show False by simp
  qed
  with run show ?thesis by (simp add: malformed_header_def)
qed

theorem no_frontmatter_guard_witness:
  "add_archive_field \<in> {add_archive_field, add_like_field} \<and>
   \<not> startswith (lit ''title: x\<newline>body'') (lit ''---'') \<and>
   first_line (lit ''title: x\<newline>body'') \<noteq> lit ''---'' \<and>
   console (add_archive_field (one_note (lit ''n.md'') (lit ''title: x\<newline>body'') WriteOk)
      (lit ''n.md'') True) = [(lit ''n.md'', NoFrontmatter)] \<and>
   written (add_archive_field (one_note (lit ''n.md'') (lit ''title: x\<newline>body'') WriteOk)
      (lit ''n.md'') True) = []"
proof -
  let ?p = "lit ''n.md''"
  let ?c = "lit ''title: x\<newline>body''"
  have mem: "add_archive_field \<in> {add_archive_field, add_like_field}" by simp
  have f: "files (one_note ?p ?c WriteOk) ?p = Some \<lparr>data = Some ?c, fault = WriteOk\<rparr>"
    by (simp add: one_note_def)
  have d: "data \<lparr>data = Some ?c, fault = WriteOk\<rparr> = Some ?c" by simp
  have e: "console (one_note ?p ?c WriteOk) = []" "written (one_note ?p ?c WriteOk) = []"
    by (simp_all add: one_note_def)
  have n: "\<not> startswith ?c (lit ''---'')" by code_simp
  from no_frontmatter_guard [OF mem f d n, of True] mem n show ?thesis
    by (simp add: e)
qed

text \<open>
  Claim C6 as stated fails: the first line of this note is \<^verbatim>\<open>---title\<close>, not the
  sentinel line, and the archive script rewrites the note.
\<close>

theorem sentinel_line_counterexample:
  "first_line (lit ''---title\<newline>---\<newline>body'') \<noteq> lit ''---'' \<and>
   console (add_archive_field (one_note (lit ''n.md'') (lit ''---title\<newline>---\<newline>body'') WriteOk)
      (lit ''n.md'') True) = [(lit ''n.md'', Added)] \<and>
   written (add_archive_field (one_note (lit ''n.md'') (lit ''---title\<newline>---\<newline>body'') WriteOk)
      (lit ''n.md'') True) = [lit ''n.md''] \<and>
   files (add_archive_field (one_note (lit ''n.md'') (lit ''---title\<newline>---\<newline>body'') WriteOk)
      (lit ''n.md'') True) (lit ''n.md'') =
     Some \<lparr>data = Some (lit ''---title\<newline>archive: true\<newline>---\<newline>body''), fault = WriteOk\<rparr>"
proof -
  let ?p = "lit ''n.md''"
  let ?c = "lit ''---title\<newline>---\<newline>body''"
  let ?n = "lit ''---title\<newline>archive: true\<newline>---\<newline>body''"
  have f: "files (one_note ?p ?c WriteOk) ?p = Some \<lparr>data = Some ?c, fault = WriteOk\<rparr>"
    by (simp add: one_note_def)
  have d: "data \<lparr>data = Some ?c, fault = WriteOk\<rparr> = Some ?c" by simp
  have e: "console (one_note ?p ?c WriteOk) = []" "written (one_note ?p ?c WriteOk) = []"
    by (simp_all add: one_note_def)
  have t: "add_field_text (lit ''archive'') (lit ''like'') True ?c = Inr ?n" by code_simp
  have l: "first_line ?c \<noteq> lit ''---''" by code_simp
  from add_field_write [OF f d t] l show ?thesis
    by (simp add: add_archive_field_def e)
qed

lemma cut_first_no_earlier:
  assumes "cut_first sep s = Some (a, r)" and "sep \<noteq> []"
  shows "\<not> contains (a @ butlast sep) sep"
proof
  assume "contains (a @ butlast sep) sep"
  then obtain x y where xy: "a @ butlast sep = x @ sep @ y"
    by (auto simp: contains_iff)
  from assms(1) have "s = a @ sep @ r" by (rule cut_first_SomeD)
  with assms(2) have "s = a @ butlast sep @ [last sep] @ r"
    by (metis append_butlast_last_id append_assoc)
  with xy have "s = x @ sep @ (y @ [last sep] @ r)" by simp
  with assms(1) have "length a \<le> length x" by (rule cut_first_least)
  moreover from xy have "length (a @ butlast sep) = length (x @ sep @ y)" by simp
  then have "length a + (length sep - 1) = length x + length sep + length y" by simp
  moreover from assms(2) have "0 < length sep" by simp
  ultimately show False by arith
qed

lemma butlast_sentinel: "butlast (lit ''---'') = lit ''--''"
  by (simp add: lit_def)

lemma search_bol_occurs: "search_bol p bol s \<Longrightarrow> \<exists>a b. s = a @ p @ b"
proof (induction s arbitrary: bol)
  case Nil
  then show ?case by simp
next
  case (Cons c cs)
  show ?case
  proof (cases "startswith (c # cs) p")
    case True
    then obtain b where "c # cs = [] @ p @ b" by (auto simp: startswith_iff)
    then show ?thesis by blast
  next
    case False
    with Cons.prems have "search_bol p (c = 10) cs" by simp
    with Cons.IH obtain a b where "cs = a @ p @ b" by blast
    then have "c # cs = (c # a) @ p @ b" by simp
    then show ?thesis by blast
  qed
qed

lemma lower_str_bool: "lower (str_bool v) = (if v then lit ''true'' else lit ''false'')"
  by (simp add: lower_def str_bool_def lit_def)

lemma rstrip_decomp: "\<exists>ws. s = rstrip s @ ws \<and> list_all isspace ws"
proof -
  have "rev s = takeWhile isspace (rev s) @ dropWhile isspace (rev s)" by simp
  then have "s = rev (dropWhile isspace (rev s)) @ rev (takeWhile isspace (rev s))"
    by (metis rev_append rev_rev_ident)
  moreover have "list_all isspace (rev (takeWhile isspace (rev s)))"
    by (simp add: list_all_iff) (meson set_takeWhileD)
  ultimately show ?thesis unfolding rstrip_def by blast
qed

lemma rstrip_last: "rstrip s \<noteq> [] \<Longrightarrow> \<not> isspace (last (rstrip s))"
  unfolding rstrip_def by (metis hd_dropWhile last_rev rev_is_Nil_conv)

lemma add_field_text_parts:
  assumes "add_field_text key anchor v content = Inr new"
  obtains h r where "split_max (lit ''---'') 2 content = [[], h, r]"
    and "content = lit ''---'' @ h @ lit ''---'' @ r"
    and "\<not> contains (h @ lit ''--'') (lit ''---'')"
    and "new = lit ''---'' @ new_frontmatter key anchor v h @ lit ''---'' @ r"
proof -
  from assms obtain h r where sw: "startswith content (lit ''---'')"
    and cut: "cut_first (lit ''---'') (drop 3 content) = Some (h, r)"
    and c: "content = lit ''---'' @ h @ lit ''---'' @ r"
    and new: "new = lit ''---'' @ new_frontmatter key anchor v h @ lit ''---'' @ r"
    by (rule add_field_text_InrD)
  from sw cut have parts: "split_max (lit ''---'') 2 content = [[], h, r]"
    by (simp add: split_max_2 length_sentinel)
  have "lit ''---'' \<noteq> []" by (simp add: lit_def)
  with cut have "\<not> contains (h @ lit ''--'') (lit ''---'')"
    using cut_first_no_earlier butlast_sentinel by metis
  from that [OF parts c this new] show thesis .
qed

text \<open>
  Claim C9. In a note that is accepted for modification, the header is the text between
  the \<^verbatim>\<open>---\<close> the text begins with and the next \<^verbatim>\<open>---\<close> after it, wherever that one
  stands (no \<^verbatim>\<open>---\<close> begins inside the header); the text from that second \<^verbatim>\<open>---\<close> on
  is copied to the output as it is, behind the new header.
\<close>

theorem header_between_first_two_sentinels:
  assumes "add_field_text key anchor v content = Inr new"
  shows "\<exists>h r. split_max (lit ''---'') 2 content = [[], h, r] \<and>
    content = lit ''---'' @ h @ lit ''---'' @ r \<and>
    \<not> contains (h @ lit ''--'') (lit ''---'') \<and>
    new = lit ''---'' @ new_frontmatter key anchor v h @ lit ''---'' @ r"
  using assms by (rule add_field_text_parts) blast

theorem header_between_first_two_sentinels_witness:
  "add_field_text (lit ''archive'') (lit ''like'') True
      (lit ''---\<newline>title: a --- b\<newline>---\<newline>body'') =
     Inr (lit ''---\<newline>title: a\<newline>archive: true\<newline>--- b\<newline>---\<newline>body'') \<and>
   lit ''---\<newline>title: a --- b\<newline>---\<newline>body'' =
     lit ''---'' @ lit ''\<newline>title: a '' @ lit ''---'' @ lit '' b\<newline>---\<newline>body'' \<and>
   \<not> contains (lit ''\<newline>title: a '' @ lit ''--'') (lit ''---'') \<and>
   lit ''---\<newline>title: a\<newline>archive: true\<newline>--- b\<newline>---\<newline>body'' =
     lit ''---'' @ new_frontmatter (lit ''archive'') (lit ''like'') True (lit ''\<newline>title: a '') @
     lit ''---'' @ lit '' b\<newline>---\<newline>body''"
proof -
  let ?c = "lit ''---\<newline>title: a --- b\<newline>---\<newline>body''"
  let ?n = "lit ''---\<newline>title: a\<newline>archive: true\<newline>--- b\<newline>---\<newline>body''"
  have t: "add_field_text (lit ''archive'') (lit ''like'') True ?c = Inr ?n" by code_simp
  have s: "split_max (lit ''---'') 2 ?c = [[], lit ''\<newline>title: a '', lit '' b\<newline>---\<newline>body'']"
    by code_simp
  from header_between_first_two_sentinels [OF t] s t show ?thesis by auto
qed

lemma split_max_2_parts:
  assumes "startswith content (lit ''---'')"
    and "split_max (lit ''---'') 2 content = [pre, h, r]"
  shows "cut_first (lit ''---'') (drop 3 content) = Some (h, r)"
  using assms by (auto simp: split_max_2 length_sentinel split: option.splits)

lemma field_line_text:
  "field_line key v = key @ lit '': '' @ (if v then lit ''true'' else lit ''false'') @ [10]"
  by (simp add: field_line_def lower_str_bool)

text \<open>
  What the fallback branch writes when the code takes it, that is when the header does
  not contain the anchor text at all: the old header without its trailing whitespace, a
  newline, and the line \<^verbatim>\<open>key: true\<close> or \<^verbatim>\<open>key: false\<close> with its newline; the closing
  \<^verbatim>\<open>---\<close> follows at once. What \<open>rstrip\<close> removes is whitespace only, and what it
  leaves does not end in whitespace.
\<close>

lemma fallback_branch_text:
  assumes "startswith content (lit ''---'')"
    and "\<not> re_search_line (key @ lit '':'') content"
    and "split_max (lit ''---'') 2 content = [pre, h, r]"
    and "\<not> contains h (anchor @ lit '':'')"
  shows "add_field_text key anchor v content =
      Inr (lit ''---'' @ rstrip h @ [10] @
           key @ lit '': '' @ (if v then lit ''true'' else lit ''false'') @ [10] @
           lit ''---'' @ r) \<and>
    (\<exists>ws. h = rstrip h @ ws \<and> list_all isspace ws) \<and>
    (rstrip h = [] \<or> \<not> isspace (last (rstrip h)))"
proof -
  from assms(1,3) have "cut_first (lit ''---'') (drop 3 content) = Some (h, r)"
    by (rule split_max_2_parts)
  with assms(1,2,4) have "add_field_text key anchor v content =
      Inr (lit ''---'' @ rstrip h @ [10] @
           key @ lit '': '' @ (if v then lit ''true'' else lit ''false'') @ [10] @
           lit ''---'' @ r)"
    by (simp add: add_field_text_cases new_frontmatter_def field_line_text)
  with rstrip_decomp [of h] rstrip_last [of h] show ?thesis by blast
qed

text \<open>
  Claim C5 fails on the code. This header has no \<^verbatim>\<open>like\<close> key: the text \<^verbatim>\<open>like:\<close>
  stands in the middle of the title line. The archive script still takes the anchor
  branch and puts the new line after the title line, not at the end of the header.
\<close>

theorem midline_anchor_not_appended_last:
  "\<not> re_search_line (lit ''like'' @ lit '':'') (lit ''\<newline>title: I like: tea\<newline>author: x\<newline>'') \<and>
   split_max (lit ''---'') 2 (lit ''---\<newline>title: I like: tea\<newline>author: x\<newline>---\<newline>body'') =
     [[], lit ''\<newline>title: I like: tea\<newline>author: x\<newline>'', lit ''\<newline>body''] \<and>
   add_field_text (lit ''archive'') (lit ''like'') True
      (lit ''---\<newline>title: I like: tea\<newline>author: x\<newline>---\<newline>body'') =
     Inr (lit ''---\<newline>title: I like: tea\<newline>archive: true\<newline>author: x\<newline>---\<newline>body'') \<and>
   add_field_text (lit ''archive'') (lit ''like'') True
      (lit ''---\<newline>title: I like: tea\<newline>author: x\<newline>---\<newline>body'') \<noteq>
     Inr (lit ''---'' @ rstrip (lit ''\<newline>title: I like: tea\<newline>author: x\<newline>'') @ [10] @
          lit ''archive: true'' @ [10] @ lit ''---'' @ lit ''\<newline>body'')"
  by code_simp

text \<open>
  Claim C4 fails on the code. No line of this header starts with \<^verbatim>\<open>like:\<close>: the key
  \<^verbatim>\<open>unlike\<close> ends in it. The branch test \<^verbatim>\<open>'like:' in frontmatter\<close> is a substring
  test, without the line anchor that the check for the script's own key has, so the
  archive script takes the anchor branch and puts the new line after the \<^verbatim>\<open>unlike\<close>
  line, not at the end of the header.
\<close>

theorem anchor_branch_on_longer_key:
  "\<not> re_search_line (lit ''like'' @ lit '':'') (lit ''\<newline>unlike: true\<newline>title: x\<newline>'') \<and>
   split_max (lit ''---'') 2 (lit ''---\<newline>unlike: true\<newline>title: x\<newline>---\<newline>body'') =
     [[], lit ''\<newline>unlike: true\<newline>title: x\<newline>'', lit ''\<newline>body''] \<and>
   contains (lit ''\<newline>unlike: true\<newline>title: x\<newline>'') (lit ''like'' @ lit '':'') \<and>
   add_field_text (lit ''archive'') (lit ''like'') True
      (lit ''---\<newline>unlike: true\<newline>title: x\<newline>---\<newline>body'') =
     Inr (lit ''---\<newline>unlike: true\<newline>archive: true\<newline>title: x\<newline>---\<newline>body'') \<and>
   add_field_text (lit ''archive'') (lit ''like'') True
      (lit ''---\<newline>unlike: true\<newline>title: x\<newline>---\<newline>body'') \<noteq>
     Inr (lit ''---\<newline>unlike: true\<newline>title: x\<newline>archive: true\<newline>---\<newline>body'')"
  by code_simp

lemma one_line_inserted_iff:
  "one_line_inserted line old new \<longleftrightarrow> (\<exists>a b. old = a @ b \<and> new = a @ line @ b)"
proof (induction old arbitrary: new)
  case Nil
  then show ?case by auto
next
  case (Cons c cs)
  show ?case
  proof
    assume "one_line_inserted line (c # cs) new"
    then consider "new = [] @ line @ c # cs"
      | ds where "new = c # ds" "one_line_inserted line cs ds"
      by (auto split: list.splits)
    then show "\<exists>a b. c # cs = a @ b \<and> new = a @ line @ b"
    proof cases
      case 1
      then show ?thesis by (metis append_Nil)
    next
      case 2
      with Cons.IH obtain a b where "cs = a @ b" "ds = a @ line @ b" by blast
      with 2 have "c # cs = (c # a) @ b \<and> new = (c # a) @ line @ b" by simp
      then show ?thesis by blast
    qed
  next
    assume "\<exists>a b. c # cs = a @ b \<and> new = a @ line @ b"
    then obtain a b where ab: "c # cs = a @ b" "new = a @ line @ b" by blast
    show "one_line_inserted line (c # cs) new"
    proof (cases a)
      case Nil
      with ab have "new = line @ c # cs" by auto
      then show ?thesis by simp
    next
      case (Cons x a')
      with ab have "cs = a' @ b" "new = c # (a' @ line @ b)" by simp_all
      with Cons.IH [of "a' @ line @ b"] show ?thesis by auto
    qed
  qed
qed

lemma contains_ConsD:
  assumes "\<not> contains (c # cs) p"
  shows "\<not> startswith (c # cs) p" and "\<not> contains cs p"
  using assms by (auto simp: contains_def split: if_splits)

lemma re_sub_after_absent: "\<not> contains s p \<Longrightarrow> re_sub_after p ins s = s"
proof (induction s)
  case Nil
  then show ?case by simp
next
  case (Cons c cs)
  from contains_ConsD [OF Cons.prems] Cons.IH show ?case by simp
qed

lemma re_sub_after_first:
  "cut_first p s = Some (pre, after) \<Longrightarrow> cut_first [10] after = Some (tail, post) \<Longrightarrow>
   re_sub_after p ins s = pre @ p @ tail @ [10] @ ins @ re_sub_after p ins post"
proof (induction s arbitrary: pre)
  case Nil
  then show ?case by (auto split: if_splits)
next
  case (Cons c cs)
  show ?case
  proof (cases "startswith (c # cs) p")
    case True
    with Cons.prems(1) have "pre = []" "after = drop (length p) (c # cs)" by simp_all
    with True Cons.prems(2) show ?thesis by simp
  next
    case False
    with Cons.prems(1) obtain pre' where "cut_first p cs = Some (pre', after)" "pre = c # pre'"
      by auto
    with False Cons.IH [OF _ Cons.prems(2)] show ?thesis by simp
  qed
qed

lemma re_sub_after_single:
  assumes "cut_first p s = Some (pre, after)" and "cut_first [10] after = Some (tail, post)"
    and "\<not> contains post p"
  shows "re_sub_after p ins s = pre @ p @ tail @ [10] @ ins @ post"
    and "s = pre @ p @ tail @ [10] @ post"
proof -
  from assms show "re_sub_after p ins s = pre @ p @ tail @ [10] @ ins @ post"
    by (simp add: re_sub_after_first re_sub_after_absent)
  from cut_first_SomeD [OF assms(1)] cut_first_SomeD [OF assms(2)]
  show "s = pre @ p @ tail @ [10] @ post" by simp
qed

lemma universal_newlines_plain: "13 \<notin> set raw \<Longrightarrow> universal_newlines raw = raw"
  unfolding universal_newlines_def by (induction raw) auto

text \<open>
  Claim C2, amended. \<open>content\<close> is the text \<^verbatim>\<open>read_text\<close> returns for the file text
  \<open>raw\<close>, and \<open>new\<close> the text handed to \<^verbatim>\<open>write_text\<close>. Whenever the edit is accepted,
  \<open>new\<close> is the opening \<^verbatim>\<open>---\<close>, the new header, and then the text of \<open>content\<close> from
  the closing \<^verbatim>\<open>---\<close> on, character for character; when the file has no carriage return
  this is the text of the file itself. In the fallback branch the header is kept up to
  its trailing whitespace, and a newline and the new line stand where that whitespace
  was. In the anchor branch, when the anchor text occurs in one header line only and a
  newline ends that line, the new line is put right after that newline and this is the
  only difference between the text read and the text written.
\<close>

theorem frame_of_insertion:
  assumes "content = universal_newlines raw"
    and "add_field_text key anchor v content = Inr new"
  shows "\<exists>h r. split_max (lit ''---'') 2 content = [[], h, r] \<and>
    content = lit ''---'' @ h @ lit ''---'' @ r \<and>
    new = lit ''---'' @ new_frontmatter key anchor v h @ lit ''---'' @ r \<and>
    (13 \<notin> set raw \<longrightarrow> raw = lit ''---'' @ h @ lit ''---'' @ r) \<and>
    (\<not> contains h (anchor @ lit '':'') \<longrightarrow>
       (\<exists>ws. h = rstrip h @ ws \<and> list_all isspace ws) \<and>
       new = lit ''---'' @ rstrip h @ [10] @ field_line key v @ lit ''---'' @ r) \<and>
    (\<forall>pre after tail post.
       cut_first (anchor @ lit '':'') h = Some (pre, after) \<and>
       cut_first [10] after = Some (tail, post) \<and>
       \<not> contains post (anchor @ lit '':'') \<longrightarrow>
       h = pre @ anchor @ lit '':'' @ tail @ [10] @ post \<and>
       new = lit ''---'' @ pre @ anchor @ lit '':'' @ tail @ [10] @ field_line key v @ post @
             lit ''---'' @ r \<and>
       one_line_inserted (field_line key v) content new)"
proof -
  from assms(2) obtain h r where parts: "split_max (lit ''---'') 2 content = [[], h, r]"
    and c: "content = lit ''---'' @ h @ lit ''---'' @ r"
    and new: "new = lit ''---'' @ new_frontmatter key anchor v h @ lit ''---'' @ r"
    by (rule add_field_text_parts)
  let ?p = "anchor @ lit '':''"
  let ?l = "field_line key v"
  have plain: "13 \<notin> set raw \<longrightarrow> raw = lit ''---'' @ h @ lit ''---'' @ r"
    using assms(1) c by (simp add: universal_newlines_plain)
  have A: "\<not> contains h ?p \<longrightarrow>
       (\<exists>ws. h = rstrip h @ ws \<and> list_all isspace ws) \<and>
       new = lit ''---'' @ rstrip h @ [10] @ ?l @ lit ''---'' @ r"
    using new rstrip_decomp [of h] by (simp add: new_frontmatter_def)
  have B: "\<forall>pre after tail post.
       cut_first ?p h = Some (pre, after) \<and> cut_first [10] after = Some (tail, post) \<and>
       \<not> contains post ?p \<longrightarrow>
       h = pre @ ?p @ tail @ [10] @ post \<and>
       new = lit ''---'' @ pre @ ?p @ tail @ [10] @ ?l @ post @ lit ''---'' @ r \<and>
       one_line_inserted ?l content new"
  proof (intro allI impI)
    fix pre after tail post
    assume "cut_first ?p h = Some (pre, after) \<and> cut_first [10] after = Some (tail, post) \<and>
       \<not> contains post ?p"
    then have cuts: "cut_first ?p h = Some (pre, after)" "cut_first [10] after = Some (tail, post)"
      "\<not> contains post ?p"
      by simp_all
    from cuts(1) have "contains h ?p" by (simp add: contains_def)
    with new have n: "new = lit ''---'' @ re_sub_after ?p ?l h @ lit ''---'' @ r"
      by (simp add: new_frontmatter_def)
    from re_sub_after_single(1) [OF cuts, of ?l]
    have s: "re_sub_after ?p ?l h = pre @ ?p @ tail @ [10] @ ?l @ post"
      by simp
    from re_sub_after_single(2) [OF cuts]
    have h: "h = pre @ ?p @ tail @ [10] @ post"
      by simp
    from n s have n': "new = lit ''---'' @ pre @ ?p @ tail @ [10] @ ?l @ post @ lit ''---'' @ r"
      by simp
    from c h have "content = (lit ''---'' @ pre @ ?p @ tail @ [10]) @ (post @ lit ''---'' @ r)"
      by simp
    moreover from n' have "new = (lit ''---'' @ pre @ ?p @ tail @ [10]) @ ?l @ (post @ lit ''---'' @ r)"
      by simp
    ultimately have "one_line_inserted ?l content new"
      unfolding one_line_inserted_iff by blast
    with h n' show "h = pre @ ?p @ tail @ [10] @ post \<and>
       new = lit ''---'' @ pre @ ?p @ tail @ [10] @ ?l @ post @ lit ''---'' @ r \<and>
       one_line_inserted ?l content new"
      by simp
  qed
  show ?thesis
    by (rule exI [of _ h], rule exI [of _ r]) (use parts c new plain A B in simp)
qed

theorem frame_of_insertion_witness:
  "universal_newlines (lit ''---'' @ [13, 10] @ lit ''title: x '' @ [13, 10] @ lit ''---'' @ [13, 10] @ lit ''body'') =
     lit ''---\<newline>title: x \<newline>---\<newline>body'' \<and>
   add_field_text (lit ''archive'') (lit ''like'') True (lit ''---\<newline>title: x \<newline>---\<newline>body'') =
     Inr (lit ''---\<newline>title: x\<newline>archive: true\<newline>---\<newline>body'') \<and>
   \<not> contains (lit ''\<newline>title: x \<newline>'') (lit ''like'' @ lit '':'') \<and>
   lit ''---\<newline>title: x\<newline>archive: true\<newline>---\<newline>body'' =
     lit ''---'' @ rstrip (lit ''\<newline>title: x \<newline>'') @ [10] @ field_line (lit ''archive'') True @
     lit ''---'' @ lit ''\<newline>body'' \<and>
   13 \<notin> set (lit ''---\<newline>title: x\<newline>like: true\<newline>---\<newline>body'') \<and>
   add_field_text (lit ''archive'') (lit ''like'') True
      (lit ''---\<newline>title: x\<newline>like: true\<newline>---\<newline>body'') =
     Inr (lit ''---\<newline>title: x\<newline>like: true\<newline>archive: true\<newline>---\<newline>body'') \<and>
   cut_first (lit ''like'' @ lit '':'') (lit ''\<newline>title: x\<newline>like: true\<newline>'') =
     Some (lit ''\<newline>title: x\<newline>'', lit '' true\<newline>'') \<and>
   cut_first [10] (lit '' true\<newline>'') = Some (lit '' true'', []) \<and>
   \<not> contains [] (lit ''like'' @ lit '':'') \<and>
   lit ''---\<newline>title: x\<newline>like: true\<newline>archive: true\<newline>---\<newline>body'' =
     lit ''---'' @ new_frontmatter (lit ''archive'') (lit ''like'') True
       (lit ''\<newline>title: x\<newline>like: true\<newline>'') @ lit ''---'' @ lit ''\<newline>body'' \<and>
   one_line_inserted (field_line (lit ''archive'') True)
     (lit ''---\<newline>title: x\<newline>like: true\<newline>---\<newline>body'')
     (lit ''---\<newline>title: x\<newline>like: true\<newline>archive: true\<newline>---\<newline>body'')"
proof -
  let ?p = "lit ''like'' @ lit '':''"
  let ?l = "field_line (lit ''archive'') True"
  let ?raw1 = "lit ''---'' @ [13, 10] @ lit ''title: x '' @ [13, 10] @ lit ''---'' @ [13, 10] @ lit ''body''"
  let ?c1 = "lit ''---\<newline>title: x \<newline>---\<newline>body''"
  let ?h1 = "lit ''\<newline>title: x \<newline>''"
  let ?n1 = "lit ''---\<newline>title: x\<newline>archive: true\<newline>---\<newline>body''"
  let ?c2 = "lit ''---\<newline>title: x\<newline>like: true\<newline>---\<newline>body''"
  let ?h2 = "lit ''\<newline>title: x\<newline>like: true\<newline>''"
  let ?n2 = "lit ''---\<newline>title: x\<newline>like: true\<newline>archive: true\<newline>---\<newline>body''"
  have u1: "universal_newlines ?raw1 = ?c1" by code_simp
  have t1: "add_field_text (lit ''archive'') (lit ''like'') True ?c1 = Inr ?n1" by code_simp
  have s1: "split_max (lit ''---'') 2 ?c1 = [[], ?h1, lit ''\<newline>body'']" by code_simp
  have o1: "\<not> contains ?h1 ?p" by code_simp
  from frame_of_insertion [OF u1 [symmetric] t1] obtain h r
    where "split_max (lit ''---'') 2 ?c1 = [[], h, r]"
      and "\<not> contains h ?p \<longrightarrow>
        (\<exists>ws. h = rstrip h @ ws \<and> list_all isspace ws) \<and>
        ?n1 = lit ''---'' @ rstrip h @ [10] @ ?l @ lit ''---'' @ r"
    by (elim exE conjE)
  with s1 o1 have r1: "?n1 = lit ''---'' @ rstrip ?h1 @ [10] @ ?l @ lit ''---'' @ lit ''\<newline>body''"
    by simp
  have p2: "13 \<notin> set ?c2" by code_simp
  note u2 = universal_newlines_plain [OF p2, symmetric]
  have t2: "add_field_text (lit ''archive'') (lit ''like'') True ?c2 = Inr ?n2" by code_simp
  have s2: "split_max (lit ''---'') 2 ?c2 = [[], ?h2, lit ''\<newline>body'']" by code_simp
  have a2: "cut_first ?p ?h2 = Some (lit ''\<newline>title: x\<newline>'', lit '' true\<newline>'')" by code_simp
  have b2: "cut_first [10] (lit '' true\<newline>'') = Some (lit '' true'', [])" by code_simp
  have c2: "\<not> contains [] ?p" by code_simp
  from frame_of_insertion [OF u2 t2] obtain h r
    where hs: "split_max (lit ''---'') 2 ?c2 = [[], h, r]"
      and kept: "?n2 = lit ''---'' @ new_frontmatter (lit ''archive'') (lit ''like'') True h @
        lit ''---'' @ r"
      and every: "\<forall>pre after tail post.
        cut_first ?p h = Some (pre, after) \<and> cut_first [10] after = Some (tail, post) \<and>
        \<not> contains post ?p \<longrightarrow>
        h = pre @ lit ''like'' @ lit '':'' @ tail @ [10] @ post \<and>
        ?n2 = lit ''---'' @ pre @ lit ''like'' @ lit '':'' @ tail @ [10] @ ?l @ post @ lit ''---'' @ r \<and>
        one_line_inserted ?l ?c2 ?n2"
    by (elim exE conjE)
  from s2 hs have heq: "h = ?h2" and req: "r = lit ''\<newline>body''" by simp_all
  note every [unfolded heq, rule_format, OF conjI [OF a2 conjI [OF b2 c2]]]
  then have r2: "one_line_inserted ?l ?c2 ?n2" by (elim conjE)
  note k2 = kept [unfolded heq req]
  from u1 t1 o1 r1 p2 t2 a2 b2 c2 k2 r2 show ?thesis by (intro conjI)
qed

text \<open>
  Claim C2 as stated fails: the header line \<^verbatim>\<open>title: x \<close> ends in a space, the fallback
  branch strips it, and the new text is not the old text with one line put in.
\<close>

theorem header_line_trimmed_counterexample:
  "add_field_text (lit ''archive'') (lit ''like'') True (lit ''---\<newline>title: x \<newline>---\<newline>body'') =
     Inr (lit ''---\<newline>title: x\<newline>archive: true\<newline>---\<newline>body'') \<and>
   \<not> one_line_inserted (field_line (lit ''archive'') True)
     (lit ''---\<newline>title: x \<newline>---\<newline>body'')
     (lit ''---\<newline>title: x\<newline>archive: true\<newline>---\<newline>body'')"
  by code_simp

text \<open>
  Claim C3 fails on the code. \<^verbatim>\<open>re.sub\<close> is called without \<^verbatim>\<open>count\<close> and its pattern
  is not tied to the start of a line: with the anchor text in two header lines the new
  line is inserted twice, and with the anchor text in a header line that no newline ends
  nothing is inserted, while the script reports that it added the field.
\<close>

theorem anchor_substitution_all_matches:
  "add_field_text (lit ''archive'') (lit ''like'') True
      (lit ''---\<newline>like: true\<newline>dislike: false\<newline>---\<newline>body'') =
     Inr (lit ''---\<newline>like: true\<newline>archive: true\<newline>dislike: false\<newline>archive: true\<newline>---\<newline>body'') \<and>
   add_field_text (lit ''archive'') (lit ''like'') True (lit ''---\<newline>like: true---\<newline>body'') =
     Inr (lit ''---\<newline>like: true---\<newline>body'')"
  by code_simp




















end
